theory Spec2Isabelle
  imports Complex_Main "HOL-Library.Sublist" "HOL-Library.AList" "HOL-Library.Monad_Syntax"
begin

section \<open>Text\<close>

text \<open>
  Text is a list of code units, written as a \<^typ>\<open>string\<close>. A \<^typ>\<open>char\<close> stands for
  one code unit below 256; the line feed is \<open>CHR 0x0A\<close>, and the frame separator of the
  wire format is two of them.
\<close>

definition LF :: char where
  "LF = CHR 0x0A"

definition separator :: string where
  "separator = [LF, LF]"

text \<open>\<^verbatim>\<open>s.indexOf(pat)\<close>: the least position at which \<open>pat\<close> occurs, \<open>None\<close> for -1.\<close>

fun indexOf :: "string \<Rightarrow> string \<Rightarrow> nat option" where
  "indexOf [] pat = (if pat = [] then Some 0 else None)"
| "indexOf (c # cs) pat =
     (if prefix pat (c # cs) then Some 0 else map_option Suc (indexOf cs pat))"

text \<open>\<^verbatim>\<open>s.startsWith(pat)\<close>.\<close>

definition startsWith :: "string \<Rightarrow> string \<Rightarrow> bool" where
  "startsWith s pat = prefix pat s"

text \<open>
  \<^verbatim>\<open>s.trim()\<close> removes white space and line terminators at both ends. Below 256 these
  are tab, line feed, vertical tab, form feed, carriage return, space and the
  no-break space.
\<close>

definition isWhiteSpace :: "char \<Rightarrow> bool" where
  "isWhiteSpace c = (c \<in> set [CHR 0x09, CHR 0x0A, CHR 0x0B, CHR 0x0C, CHR 0x0D, CHR 0x20, CHR 0xA0])"

definition trim :: "string \<Rightarrow> string" where
  "trim s = rev (dropWhile isWhiteSpace (rev (dropWhile isWhiteSpace s)))"

text \<open>
  \<^verbatim>\<open>message.replace(/^data: /, '')\<close>: the pattern is anchored at the start and has no
  global flag, so at most one occurrence, the leading one, is removed.
\<close>

definition replace_data_prefix :: "string \<Rightarrow> string" where
  "replace_data_prefix message =
     (if startsWith message ''data: '' then drop (length ''data: '') message else message)"

section \<open>JSON values and the backend event schema\<close>

text \<open>
  A number is the exact value of its literal; the rounding to a double is not modelled,
  and no operation here computes with numbers. An object is the list of its members in
  insertion order, with distinct keys.
\<close>

datatype json =
    JNull
  | JBool bool
  | JNumber rat
  | JString string
  | JArray "json list"
  | JObject "(string \<times> json) list"

datatype event_type =
    Start | Metadata
  | ReasoningStart | ReasoningDelta | ReasoningEnd
  | TextStart | TextDelta | TextEnd
  | Error | Finish | Done

text \<open>
  The token counts of a \<open>usage\<close> object. The schema's object and the usage of the
  finish part have the same four fields, three numbers and an optional one, so one
  record serves both.
\<close>

record usage_counts =
  inputTokens :: rat
  outputTokens :: rat
  reasoningTokens :: "rat option"
  totalTokens :: rat

text \<open>\<^verbatim>\<open>LarsBackendStreamEvent\<close>, the type inferred from the schema; \<open>None\<close> is an absent field.\<close>

record LarsBackendStreamEvent =
  type :: event_type
  messageId :: "string option"
  id' :: "string option"
  delta :: "string option"
  errorText :: "string option"
  finishReason :: "string option"
  usage :: "usage_counts option"
  answer :: "json option"
  data :: "(string \<times> json) list option"

subsection \<open>The schema\<close>

text \<open>
  Each validator returns \<open>None\<close> where the schema rejects the value. A member of an
  object is looked up by key; \<open>z_optional\<close> accepts a missing member, \<open>z_required\<close> does
  not. \<^verbatim>\<open>null\<close> is a value like any other: an optional string that is \<^verbatim>\<open>null\<close> is rejected.
  The record validator copies the members of an object into a new one and leaves out a
  member named \<^verbatim>\<open>__proto__\<close>.
\<close>

definition z_string :: "json \<Rightarrow> string option" where
  "z_string j = (case j of JString s \<Rightarrow> Some s | _ \<Rightarrow> None)"

definition z_number :: "json \<Rightarrow> rat option" where
  "z_number j = (case j of JNumber n \<Rightarrow> Some n | _ \<Rightarrow> None)"

definition z_unknown :: "json \<Rightarrow> json option" where
  "z_unknown j = Some j"

definition z_record_unknown :: "json \<Rightarrow> (string \<times> json) list option" where
  "z_record_unknown j =
     (case j of
        JObject members \<Rightarrow> Some (filter (\<lambda>(key, v). key \<noteq> ''__proto__'') members)
      | _ \<Rightarrow> None)"

definition z_enum_type :: "json \<Rightarrow> event_type option" where
  "z_enum_type j =
     (case j of
        JString s \<Rightarrow>
          (if s = ''start'' then Some Start
           else if s = ''metadata'' then Some Metadata
           else if s = ''reasoning-start'' then Some ReasoningStart
           else if s = ''reasoning-delta'' then Some ReasoningDelta
           else if s = ''reasoning-end'' then Some ReasoningEnd
           else if s = ''text-start'' then Some TextStart
           else if s = ''text-delta'' then Some TextDelta
           else if s = ''text-end'' then Some TextEnd
           else if s = ''error'' then Some Error
           else if s = ''finish'' then Some Finish
           else if s = ''done'' then Some Done
           else None)
      | _ \<Rightarrow> None)"

definition z_optional :: "(json \<Rightarrow> 'a option) \<Rightarrow> json option \<Rightarrow> 'a option option" where
  "z_optional schema member =
     (case member of None \<Rightarrow> Some None | Some j \<Rightarrow> map_option Some (schema j))"

definition z_required :: "(json \<Rightarrow> 'a option) \<Rightarrow> json option \<Rightarrow> 'a option" where
  "z_required schema member = (case member of None \<Rightarrow> None | Some j \<Rightarrow> schema j)"

definition z_usage :: "json \<Rightarrow> usage_counts option" where
  "z_usage j =
     (case j of
        JObject members \<Rightarrow> do {
          i \<leftarrow> z_required z_number (map_of members ''inputTokens'');
          out \<leftarrow> z_required z_number (map_of members ''outputTokens'');
          r \<leftarrow> z_optional z_number (map_of members ''reasoningTokens'');
          t \<leftarrow> z_required z_number (map_of members ''totalTokens'');
          Some \<lparr>inputTokens = i, outputTokens = out, reasoningTokens = r, totalTokens = t\<rparr>
        }
      | _ \<Rightarrow> None)"

text \<open>
  \<^verbatim>\<open>larsBackendStreamEventSchema.safeParse(json)\<close>: \<open>Some\<close> the validated event when
  \<^verbatim>\<open>success\<close> is true. Members the schema does not name are stripped.
\<close>

definition safeParse :: "json \<Rightarrow> LarsBackendStreamEvent option" where
  "safeParse j =
     (case j of
        JObject members \<Rightarrow> do {
          ty \<leftarrow> z_required z_enum_type (map_of members ''type'');
          mid \<leftarrow> z_optional z_string (map_of members ''messageId'');
          i \<leftarrow> z_optional z_string (map_of members ''id'');
          d \<leftarrow> z_optional z_string (map_of members ''delta'');
          e \<leftarrow> z_optional z_string (map_of members ''errorText'');
          f \<leftarrow> z_optional z_string (map_of members ''finishReason'');
          u \<leftarrow> z_optional z_usage (map_of members ''usage'');
          a \<leftarrow> z_optional z_unknown (map_of members ''answer'');
          dt \<leftarrow> z_optional z_record_unknown (map_of members ''data'');
          Some \<lparr>type = ty, messageId = mid, id' = i, delta = d, errorText = e,
                finishReason = f, usage = u, answer = a, data = dt\<rparr>
        }
      | _ \<Rightarrow> None)"

section \<open>The output stream\<close>

text \<open>The stream parts the transform enqueues, one constructor for each \<^verbatim>\<open>type\<close>.\<close>

datatype stream_part =
    StreamStartPart "string list"
  | DataPart "(string \<times> json) list"
  | ReasoningStartPart string
  | ReasoningDeltaPart string string
  | ReasoningEndPart string
  | TextStartPart string
  | TextDeltaPart string string
  | TextEndPart string
  | ErrorPart string
  | FinishPart string usage_counts

text \<open>
  What \<^verbatim>\<open>self.log\<close> is called with. The call is made whatever the \<^verbatim>\<open>debug\<close> flag says;
  the flag only decides whether the line is printed.
\<close>

datatype diagnostic =
    ReceivedRawChunk string
  | SkippingInvalidBackendEvent json
  | ParsedAndValidatedEvent LarsBackendStreamEvent
  | FailedToParseJSON string

datatype effect = Enqueue stream_part | Log diagnostic

text \<open>\<^verbatim>\<open>a ?? b\<close>: \<open>b\<close> where \<open>a\<close> is absent.\<close>

definition nullish :: "'a option \<Rightarrow> 'a \<Rightarrow> 'a" where
  "nullish a b = (case a of None \<Rightarrow> b | Some v \<Rightarrow> v)"

text \<open>
  The \<^verbatim>\<open>switch\<close> over \<^verbatim>\<open>event.type\<close>: the parts one validated event enqueues. A string is
  truthy when it is not empty, an object always. The counts of a present \<open>usage\<close> are
  numbers by the schema, so \<^verbatim>\<open>?? 0\<close> acts where \<open>usage\<close> itself is absent. The \<^verbatim>\<open>default\<close>
  branch has no event type left to serve.
\<close>

definition translate :: "LarsBackendStreamEvent \<Rightarrow> stream_part list" where
  "translate event =
     (case type event of
        Start \<Rightarrow> [StreamStartPart []]
      | Metadata \<Rightarrow>
          (case data event of Some d \<Rightarrow> [DataPart d] | None \<Rightarrow> [])
      | ReasoningStart \<Rightarrow> [ReasoningStartPart (nullish (id' event) ''reasoning-block'')]
      | ReasoningDelta \<Rightarrow>
          (case delta event of
             Some d \<Rightarrow>
               (if d \<noteq> [] then [ReasoningDeltaPart (nullish (id' event) ''reasoning-block'') d]
                else [])
           | None \<Rightarrow> [])
      | ReasoningEnd \<Rightarrow> [ReasoningEndPart (nullish (id' event) ''reasoning-block'')]
      | TextStart \<Rightarrow> [TextStartPart (nullish (id' event) ''text-block'')]
      | TextDelta \<Rightarrow>
          (case delta event of
             Some d \<Rightarrow>
               (if d \<noteq> [] then [TextDeltaPart (nullish (id' event) ''text-block'') d] else [])
           | None \<Rightarrow> [])
      | TextEnd \<Rightarrow> [TextEndPart (nullish (id' event) ''text-block'')]
      | Error \<Rightarrow> [ErrorPart (nullish (errorText event) ''An unknown backend error occurred.'')]
      | Finish \<Rightarrow>
          [FinishPart (nullish (finishReason event) ''stop'')
             \<lparr>inputTokens = nullish (map_option inputTokens (usage event)) 0,
              outputTokens = nullish (map_option outputTokens (usage event)) 0,
              reasoningTokens = Option.bind (usage event) reasoningTokens,
              totalTokens = nullish (map_option totalTokens (usage event)) 0\<rparr>]
      | Done \<Rightarrow> [])"

section \<open>The transform\<close>

text \<open>
  The \<^verbatim>\<open>try\<close> block for the text handed to the parser. \<open>parse\<close> stands for
  \<^verbatim>\<open>JSON.parse\<close>, with \<open>None\<close> for the syntax error it throws; the \<^verbatim>\<open>catch\<close> logs and the
  loop goes on. The readable side is taken to be open, so that \<^verbatim>\<open>enqueue\<close> succeeds.
\<close>

definition parse_and_translate :: "(string \<Rightarrow> json option) \<Rightarrow> string \<Rightarrow> effect list" where
  "parse_and_translate parse jsonString =
     (case parse jsonString of
        None \<Rightarrow> [Log (FailedToParseJSON jsonString)]
      | Some json \<Rightarrow>
          (case safeParse json of
             None \<Rightarrow> [Log (SkippingInvalidBackendEvent json)]
           | Some event \<Rightarrow>
               Log (ParsedAndValidatedEvent event) # map Enqueue (translate event)))"

text \<open>The body of the loop for one extracted frame.\<close>

definition handle_message :: "(string \<Rightarrow> json option) \<Rightarrow> string \<Rightarrow> effect list" where
  "handle_message parse message =
     (if trim message = [] \<or> startsWith message ''data: [DONE]'' then []
      else parse_and_translate parse (replace_data_prefix message))"

lemma indexOf_Some_le: "indexOf s pat = Some i \<Longrightarrow> i + length pat \<le> length s"
proof (induction s arbitrary: i)
  case Nil
  then show ?case by (simp split: if_splits)
next
  case (Cons c cs)
  show ?case
  proof (cases "prefix pat (c # cs)")
    case True
    with Cons.prems show ?thesis by (auto dest: prefix_length_le)
  next
    case False
    with Cons.prems obtain j where "indexOf cs pat = Some j" and "i = Suc j" by auto
    with Cons.IH show ?thesis by simp
  qed
qed

text \<open>
  The \<^verbatim>\<open>while (true)\<close> loop on a buffer: every frame in front of a separator is cut
  off and handled, until no separator is left. The result is the effects in order and
  the buffer kept for the next chunk.
\<close>

function process_buffer :: "(string \<Rightarrow> json option) \<Rightarrow> string \<Rightarrow> effect list \<times> string" where
  "process_buffer parse buffer =
     (case indexOf buffer separator of
        None \<Rightarrow> ([], buffer)
      | Some separatorIndex \<Rightarrow>
          (let message = take separatorIndex buffer;
               rest = drop (separatorIndex + 2) buffer;
               (effects, buffer') = process_buffer parse rest
           in (handle_message parse message @ effects, buffer')))"
  by pat_completeness auto
termination
proof (relation "measure (\<lambda>(parse, buffer). length buffer)", goal_cases)
  case 1
  show ?case by simp
next
  case (2 parse buffer i message rest)
  then have "i + 2 \<le> length buffer"
    using indexOf_Some_le [of buffer separator i] by (simp add: separator_def)
  with 2 show ?case by simp
qed

declare process_buffer.simps [simp del]

text \<open>\<^verbatim>\<open>transform(chunk, controller)\<close>: the buffer before, the chunk, the effects and the buffer after.\<close>

definition transform :: "(string \<Rightarrow> json option) \<Rightarrow> string \<Rightarrow> string \<Rightarrow> effect list \<times> string" where
  "transform parse buffer chunk =
     (let (effects, buffer') = process_buffer parse (buffer @ chunk)
      in (Log (ReceivedRawChunk chunk) # effects, buffer'))"

text \<open>The transform over the chunks of a stream, one after the other.\<close>

fun run_transform :: "(string \<Rightarrow> json option) \<Rightarrow> string \<Rightarrow> string list \<Rightarrow> effect list \<times> string" where
  "run_transform parse buffer [] = ([], buffer)"
| "run_transform parse buffer (chunk # chunks) =
     (let (effects, buffer') = transform parse buffer chunk;
          (effects', buffer'') = run_transform parse buffer' chunks
      in (effects @ effects', buffer''))"

text \<open>What the reader of the output stream sees: the enqueued parts, in order.\<close>

fun enqueued :: "effect list \<Rightarrow> stream_part list" where
  "enqueued [] = []"
| "enqueued (Enqueue p # es) = p # enqueued es"
| "enqueued (Log d # es) = enqueued es"

definition output_parts :: "(string \<Rightarrow> json option) \<Rightarrow> string list \<Rightarrow> stream_part list" where
  "output_parts parse chunks = enqueued (fst (run_transform parse [] chunks))"

section \<open>The JSON grammar\<close>

text \<open>
  \<^verbatim>\<open>JSON.parse\<close> belongs to the runtime. The theorems below hold for every function
  \<open>parse\<close>; the parser of this section follows the JSON grammar (white space, the six
  kinds of value, the escapes of a string, the number syntax) and serves to run the
  transform on concrete wire text. A duplicate key keeps its place and takes the later
  value. An escape \<^verbatim>\<open>\uXXXX\<close> of a code unit above 255 has no \<^typ>\<open>char\<close> and is not
  accepted.
\<close>

definition isJsonWhiteSpace :: "char \<Rightarrow> bool" where
  "isJsonWhiteSpace c = (c \<in> set [CHR 0x20, CHR 0x09, CHR 0x0A, CHR 0x0D])"

definition skip_ws :: "string \<Rightarrow> string" where
  "skip_ws s = dropWhile isJsonWhiteSpace s"

definition isDigit :: "char \<Rightarrow> bool" where
  "isDigit c = (48 \<le> (of_char c :: nat) \<and> (of_char c :: nat) \<le> 57)"

definition digits_value :: "string \<Rightarrow> nat" where
  "digits_value ds = foldl (\<lambda>n c. 10 * n + (of_char c - 48)) 0 ds"

definition hex_digit :: "char \<Rightarrow> nat option" where
  "hex_digit c =
     (let n = (of_char c :: nat)
      in if 48 \<le> n \<and> n \<le> 57 then Some (n - 48)
         else if 97 \<le> n \<and> n \<le> 102 then Some (n - 87)
         else if 65 \<le> n \<and> n \<le> 70 then Some (n - 55)
         else None)"

definition unicode_escape :: "char \<Rightarrow> char \<Rightarrow> char \<Rightarrow> char \<Rightarrow> char option" where
  "unicode_escape a b c d = do {
     x3 \<leftarrow> hex_digit a; x2 \<leftarrow> hex_digit b; x1 \<leftarrow> hex_digit c; x0 \<leftarrow> hex_digit d;
     (if x3 = 0 \<and> x2 = 0 then Some (char_of (16 * x1 + x0)) else None)
   }"

definition simple_escape :: "char \<Rightarrow> char option" where
  "simple_escape c =
     (if c = CHR 0x22 then Some (CHR 0x22)
      else if c = CHR 0x5C then Some (CHR 0x5C)
      else if c = CHR ''/'' then Some (CHR ''/'')
      else if c = CHR ''b'' then Some (CHR 0x08)
      else if c = CHR ''f'' then Some (CHR 0x0C)
      else if c = CHR ''n'' then Some (CHR 0x0A)
      else if c = CHR ''r'' then Some (CHR 0x0D)
      else if c = CHR ''t'' then Some (CHR 0x09)
      else None)"

text \<open>The characters of a string after its opening quote, up to the closing one.\<close>

fun parse_string_body :: "string \<Rightarrow> string \<Rightarrow> (string \<times> string) option" where
  "parse_string_body acc [] = None"
| "parse_string_body acc [c] = (if c = CHR 0x22 then Some (acc, []) else None)"
| "parse_string_body acc (c # e # cs) =
     (if c = CHR 0x22 then Some (acc, e # cs)
      else if c = CHR 0x5C then
        (if e = CHR ''u'' then
           (case cs of
              x3 # x2 # x1 # x0 # rest \<Rightarrow>
                (case unicode_escape x3 x2 x1 x0 of
                   None \<Rightarrow> None
                 | Some u \<Rightarrow> parse_string_body (acc @ [u]) rest)
            | _ \<Rightarrow> None)
         else
           (case simple_escape e of
              None \<Rightarrow> None
            | Some u \<Rightarrow> parse_string_body (acc @ [u]) cs))
      else if (of_char c :: nat) < 32 then None
      else parse_string_body (acc @ [c]) (e # cs))"

definition parse_exponent :: "string \<Rightarrow> (int \<times> string) option" where
  "parse_exponent s =
     (if s \<noteq> [] \<and> (hd s = CHR ''e'' \<or> hd s = CHR ''E'') then
        (let s1 = tl s;
             negative = (s1 \<noteq> [] \<and> hd s1 = CHR ''-'');
             s2 = (if s1 \<noteq> [] \<and> (hd s1 = CHR ''-'' \<or> hd s1 = CHR ''+'') then tl s1 else s1);
             ds = takeWhile isDigit s2
         in if ds = [] then None
            else Some ((if negative then - int (digits_value ds) else int (digits_value ds)),
                       dropWhile isDigit s2))
      else Some (0, s))"

definition parse_fraction :: "string \<Rightarrow> (string \<times> string) option" where
  "parse_fraction s =
     (if s \<noteq> [] \<and> hd s = CHR ''.'' then
        (let ds = takeWhile isDigit (tl s)
         in if ds = [] then None else Some (ds, dropWhile isDigit (tl s)))
      else Some ([], s))"

definition number_value :: "bool \<Rightarrow> string \<Rightarrow> string \<Rightarrow> int \<Rightarrow> rat" where
  "number_value negative ip fp ex =
     (let m = of_nat (digits_value (ip @ fp)) :: rat;
          e = ex - int (length fp);
          v = (if 0 \<le> e then m * 10 ^ nat e else m / 10 ^ nat (- e))
      in if negative then - v else v)"

definition parse_number :: "string \<Rightarrow> (rat \<times> string) option" where
  "parse_number s =
     (let negative = (s \<noteq> [] \<and> hd s = CHR ''-'');
          s1 = (if negative then tl s else s);
          ip = takeWhile isDigit s1
      in if ip = [] \<or> (1 < length ip \<and> hd ip = CHR ''0'') then None
         else do {
           (fp, s2) \<leftarrow> parse_fraction (dropWhile isDigit s1);
           (ex, s3) \<leftarrow> parse_exponent s2;
           Some (number_value negative ip fp ex, s3)
         })"

text \<open>
  Values, the elements of an array after its bracket and the members of an object after
  its brace. The first argument bounds the depth of the calls; \<open>JSON_parse\<close> starts with
  more than the text can use.
\<close>

fun parse_value :: "nat \<Rightarrow> string \<Rightarrow> (json \<times> string) option"
  and parse_elements :: "nat \<Rightarrow> json list \<Rightarrow> string \<Rightarrow> (json list \<times> string) option"
  and parse_members ::
    "nat \<Rightarrow> (string \<times> json) list \<Rightarrow> string \<Rightarrow> ((string \<times> json) list \<times> string) option"
  where
  "parse_value 0 s = None"
| "parse_value (Suc n) s =
     (case s of
        [] \<Rightarrow> None
      | c # cs \<Rightarrow>
          (if c = CHR ''{'' then
             (let s1 = skip_ws cs
              in if startsWith s1 ''}'' then Some (JObject [], tl s1)
                 else map_option (\<lambda>(ms, r). (JObject ms, r)) (parse_members n [] s1))
           else if c = CHR ''['' then
             (let s1 = skip_ws cs
              in if startsWith s1 '']'' then Some (JArray [], tl s1)
                 else map_option (\<lambda>(vs, r). (JArray vs, r)) (parse_elements n [] s1))
           else if c = CHR 0x22 then
             map_option (\<lambda>(str, r). (JString str, r)) (parse_string_body [] cs)
           else if startsWith s ''true'' then Some (JBool True, drop 4 s)
           else if startsWith s ''false'' then Some (JBool False, drop 5 s)
           else if startsWith s ''null'' then Some (JNull, drop 4 s)
           else map_option (\<lambda>(x, r). (JNumber x, r)) (parse_number s)))"
| "parse_elements 0 acc s = None"
| "parse_elements (Suc n) acc s =
     (case parse_value n s of
        None \<Rightarrow> None
      | Some (v, r) \<Rightarrow>
          (case skip_ws r of
             [] \<Rightarrow> None
           | c # cs \<Rightarrow>
               (if c = CHR '','' then parse_elements n (acc @ [v]) (skip_ws cs)
                else if c = CHR '']'' then Some (acc @ [v], cs)
                else None)))"
| "parse_members 0 acc s = None"
| "parse_members (Suc n) acc s =
     (case s of
        [] \<Rightarrow> None
      | q # s1 \<Rightarrow>
          (if q \<noteq> CHR 0x22 then None
           else
             (case parse_string_body [] s1 of
                None \<Rightarrow> None
              | Some (key, r) \<Rightarrow>
                  (case skip_ws r of
                     [] \<Rightarrow> None
                   | colon # r1 \<Rightarrow>
                       (if colon \<noteq> CHR '':'' then None
                        else
                          (case parse_value n (skip_ws r1) of
                             None \<Rightarrow> None
                           | Some (v, r2) \<Rightarrow>
                               (case skip_ws r2 of
                                  [] \<Rightarrow> None
                                | c # cs \<Rightarrow>
                                    (if c = CHR '','' then
                                       parse_members n (AList.update key v acc) (skip_ws cs)
                                     else if c = CHR ''}'' then
                                       Some (AList.update key v acc, cs)
                                     else None))))))))"

definition JSON_parse :: "string \<Rightarrow> json option" where
  "JSON_parse s =
     (case parse_value (2 * length s + 2) (skip_ws s) of
        None \<Rightarrow> None
      | Some (v, r) \<Rightarrow> (if skip_ws r = [] then Some v else None))"

section \<open>The call\<close>

text \<open>
  A prompt message is a system message, whose content is a string, or a user, assistant
  or tool message, whose content is a list of parts. Of a part only its \<^verbatim>\<open>type\<close> and,
  for a text part, its text matter here.
\<close>

datatype prompt_part =
    TextPart string
  | FilePart
  | ReasoningPart
  | ToolCallPart
  | ToolResultPart


datatype message =
    SystemMessage string
  | UserMessage "prompt_part list"
  | AssistantMessage "prompt_part list"
  | ToolMessage "prompt_part list"





















section \<open>Notions used in the statements\<close>

text \<open>
  A text \<open>f\<close> is cut off as one frame when the first separator of \<open>f @ separator\<close> is the
  one after \<open>f\<close>: \<open>f\<close> contains no separator and does not end with a line feed. \<open>wire\<close> is
  the text of a sequence of frames, each followed by the separator.
\<close>

definition is_frame :: "string \<Rightarrow> bool" where
  "is_frame f = (indexOf (f @ separator) separator = Some (length f))"

definition wire :: "string list \<Rightarrow> string" where
  "wire frames = concat (map (\<lambda>f. f @ separator) frames)"

text \<open>
  The backend event a frame carries: its payload, which is the frame without the leading
  \<^verbatim>\<open>data: \<close>, parsed and validated against the schema; \<open>None\<close> when the payload does not
  parse or the schema rejects it. \<open>text_delta_fields\<close> are the non-empty \<open>delta\<close> fields of
  the \<open>text-delta\<close> events of a list, \<open>emitted_text_deltas\<close> the \<open>delta\<close> fields of the
  \<open>text-delta\<close> parts of an output.
\<close>

definition backend_event :: "(string \<Rightarrow> json option) \<Rightarrow> string \<Rightarrow> LarsBackendStreamEvent option" where
  "backend_event parse frame =
     (case parse (replace_data_prefix frame) of None \<Rightarrow> None | Some json \<Rightarrow> safeParse json)"

definition text_delta_fields :: "LarsBackendStreamEvent list \<Rightarrow> string list" where
  "text_delta_fields events =
     concat (map (\<lambda>event.
       if type event = TextDelta then
         (case delta event of Some d \<Rightarrow> (if d \<noteq> [] then [d] else []) | None \<Rightarrow> [])
       else []) events)"

definition emitted_text_deltas :: "stream_part list \<Rightarrow> string list" where
  "emitted_text_deltas parts =
     concat (map (\<lambda>part. case part of TextDeltaPart i d \<Rightarrow> [d] | _ \<Rightarrow> []) parts)"



section \<open>The frame reassembler\<close>

lemma indexOf_append:
  "indexOf s pat = Some i \<Longrightarrow> indexOf (s @ t) pat = Some i"
proof (induction s arbitrary: i)
  case Nil
  then show ?case by (cases t) (auto split: if_splits)
next
  case (Cons c cs)
  show ?case
  proof (cases "prefix pat (c # cs)")
    case True
    then have "prefix pat ((c # cs) @ t)" by (rule prefix_prefix)
    with True Cons.prems show ?thesis by simp
  next
    case False
    with Cons.prems obtain j where j: "indexOf cs pat = Some j" and i: "i = Suc j" by auto
    from j have len: "length pat \<le> length cs" using indexOf_Some_le by fastforce
    have "\<not> prefix pat ((c # cs) @ t)"
    proof
      assume "prefix pat ((c # cs) @ t)"
      then have "prefix pat (c # cs) \<or> prefix (c # cs) pat"
        using prefix_append [of pat "c # cs" t] by auto
      with False have "prefix (c # cs) pat" by simp
      then have "length (c # cs) \<le> length pat" by (rule prefix_length_le)
      with len show False by simp
    qed
    with False j i Cons.IH [OF j] show ?thesis by simp
  qed
qed

lemma indexOf_None_no_occurrence:
  "indexOf s pat = None \<Longrightarrow> s \<noteq> pre @ pat @ post"
proof (induction s arbitrary: pre)
  case Nil
  then show ?case by (auto split: if_splits)
next
  case (Cons c cs)
  from Cons.prems have np: "\<not> prefix pat (c # cs)" and rest: "indexOf cs pat = None"
    by (auto split: if_splits)
  show ?case
  proof (cases pre)
    case Nil
    with np show ?thesis by (auto simp: prefix_def)
  next
    case (Cons d pre')
    with Cons.IH [OF rest, of pre'] show ?thesis by auto
  qed
qed

lemma process_buffer_None:
  "indexOf buffer separator = None \<Longrightarrow> process_buffer parse buffer = ([], buffer)"
  by (simp add: process_buffer.simps)

lemma process_buffer_Some:
  "indexOf buffer separator = Some i \<Longrightarrow>
   process_buffer parse buffer =
     (handle_message parse (take i buffer) @ fst (process_buffer parse (drop (i + 2) buffer)),
      snd (process_buffer parse (drop (i + 2) buffer)))"
  by (simp add: process_buffer.simps [of parse buffer] split: prod.split)

lemma process_buffer_rest_no_separator:
  "indexOf (snd (process_buffer parse buffer)) separator = None"
proof (induction parse buffer rule: process_buffer.induct)
  case (1 parse buffer)
  show ?case
  proof (cases "indexOf buffer separator")
    case None
    then show ?thesis by (simp add: process_buffer_None)
  next
    case (Some i)
    with "1.IH" [of i "take i buffer" "drop (i + 2) buffer"] show ?thesis
      by (simp add: process_buffer_Some)
  qed
qed

lemma process_buffer_append:
  "process_buffer parse (x @ y) =
     (fst (process_buffer parse x) @ fst (process_buffer parse (snd (process_buffer parse x) @ y)),
      snd (process_buffer parse (snd (process_buffer parse x) @ y)))"
proof (induction parse x rule: process_buffer.induct)
  case (1 parse buffer)
  show ?case
  proof (cases "indexOf buffer separator")
    case None
    then show ?thesis by (simp add: process_buffer_None)
  next
    case (Some i)
    then have a: "indexOf (buffer @ y) separator = Some i" by (rule indexOf_append)
    from Some have le: "i + 2 \<le> length buffer"
      using indexOf_Some_le [of buffer separator i] by (simp add: separator_def)
    define m where "m = take i buffer"
    define r where "r = drop (i + 2) buffer"
    have ih: "process_buffer parse (r @ y) =
        (fst (process_buffer parse r) @ fst (process_buffer parse (snd (process_buffer parse r) @ y)),
         snd (process_buffer parse (snd (process_buffer parse r) @ y)))"
      using "1.IH" [of i "take i buffer" "drop (i + 2) buffer"] Some by (simp add: r_def)
    from le have t: "take i (buffer @ y) = m"
      and d: "drop (i + 2) (buffer @ y) = r @ y" by (simp_all add: m_def r_def)
    have whole: "process_buffer parse (buffer @ y) =
        (handle_message parse m @ fst (process_buffer parse (r @ y)), snd (process_buffer parse (r @ y)))"
      using process_buffer_Some [OF a, of parse] by (simp only: t d)
    have front: "process_buffer parse buffer =
        (handle_message parse m @ fst (process_buffer parse r), snd (process_buffer parse r))"
      using process_buffer_Some [OF Some, of parse] by (simp only: m_def r_def)
    show ?thesis
      by (simp add: whole front ih)
  qed
qed

lemma indexOf_Nil_separator: "indexOf [] separator = None"
  by (simp add: separator_def)

lemma enqueued_append: "enqueued (es @ es') = enqueued es @ enqueued es'"
  by (induction es rule: enqueued.induct) simp_all

lemma transform_eq:
  "transform parse buffer chunk =
     (Log (ReceivedRawChunk chunk) # fst (process_buffer parse (buffer @ chunk)),
      snd (process_buffer parse (buffer @ chunk)))"
  by (simp add: transform_def split: prod.split)

lemma run_transform_whole:
  "indexOf buffer separator = None \<Longrightarrow>
   enqueued (fst (run_transform parse buffer chunks)) =
     enqueued (fst (process_buffer parse (buffer @ concat chunks))) \<and>
   snd (run_transform parse buffer chunks) = snd (process_buffer parse (buffer @ concat chunks))"
proof (induction chunks arbitrary: buffer)
  case Nil
  then show ?case by (simp add: process_buffer_None)
next
  case (Cons chunk chunks)
  define b where "b = snd (process_buffer parse (buffer @ chunk))"
  have nb: "indexOf b separator = None"
    unfolding b_def by (rule process_buffer_rest_no_separator)
  have step: "run_transform parse buffer (chunk # chunks) =
      ((Log (ReceivedRawChunk chunk) # fst (process_buffer parse (buffer @ chunk))) @
         fst (run_transform parse b chunks),
       snd (run_transform parse b chunks))"
    by (simp add: transform_eq b_def split: prod.split)
  have whole: "process_buffer parse ((buffer @ chunk) @ concat chunks) =
      (fst (process_buffer parse (buffer @ chunk)) @ fst (process_buffer parse (b @ concat chunks)),
       snd (process_buffer parse (b @ concat chunks)))"
    unfolding b_def by (rule process_buffer_append)
  from Cons.IH [OF nb] step whole show ?case
    by (simp add: enqueued_append)
qed

lemma output_parts_whole:
  "output_parts parse chunks = enqueued (fst (process_buffer parse (concat chunks)))"
  using run_transform_whole [OF indexOf_Nil_separator, of parse chunks]
  by (simp add: output_parts_def)

lemma process_buffer_frame:
  assumes "is_frame f"
  shows "process_buffer parse (f @ separator @ rest) =
     (handle_message parse f @ fst (process_buffer parse rest), snd (process_buffer parse rest))"
proof -
  from assms have "indexOf ((f @ separator) @ rest) separator = Some (length f)"
    unfolding is_frame_def by (rule indexOf_append)
  then have i: "indexOf (f @ separator @ rest) separator = Some (length f)" by simp
  have t: "take (length f) (f @ separator @ rest) = f" by simp
  have d: "drop (length f + 2) (f @ separator @ rest) = rest" by (simp add: separator_def)
  show ?thesis
    using process_buffer_Some [OF i, of parse] by (simp only: t d)
qed

lemma process_buffer_wire:
  "\<forall>f \<in> set frames. is_frame f \<Longrightarrow>
   process_buffer parse (wire frames @ rest) =
     (concat (map (handle_message parse) frames) @ fst (process_buffer parse rest),
      snd (process_buffer parse rest))"
proof (induction frames)
  case Nil
  then show ?case by (simp add: wire_def)
next
  case (Cons f frames)
  then have f: "is_frame f" and fs: "\<forall>g \<in> set frames. is_frame g" by simp_all
  have "wire (f # frames) @ rest = f @ separator @ (wire frames @ rest)"
    by (simp add: wire_def)
  then have "process_buffer parse (wire (f # frames) @ rest) =
      (handle_message parse f @ fst (process_buffer parse (wire frames @ rest)),
       snd (process_buffer parse (wire frames @ rest)))"
    using process_buffer_frame [OF f, of parse "wire frames @ rest"] by simp
  with Cons.IH [OF fs] show ?case by simp
qed

lemma enqueued_concat:
  "enqueued (concat ess) = concat (map enqueued ess)"
  by (induction ess) (simp_all add: enqueued_append)

lemma output_parts_wire:
  assumes "\<forall>f \<in> set frames. is_frame f" and "concat chunks = wire frames"
  shows "output_parts parse chunks = concat (map (\<lambda>f. enqueued (handle_message parse f)) frames)"
proof -
  have "process_buffer parse (wire frames @ []) =
      (concat (map (handle_message parse) frames) @ fst (process_buffer parse []),
       snd (process_buffer parse []))"
    using assms(1) by (rule process_buffer_wire)
  then have "fst (process_buffer parse (wire frames)) = concat (map (handle_message parse) frames)"
    by (simp add: process_buffer_None [OF indexOf_Nil_separator])
  with assms(2) show ?thesis
    by (simp add: output_parts_whole enqueued_concat comp_def)
qed

lemma indexOf_self: "indexOf pat pat = Some 0"
  by (cases pat) simp_all

lemma indexOf_Some_decomp:
  "indexOf s pat = Some i \<Longrightarrow> s = take i s @ pat @ drop (i + length pat) s"
proof (induction s arbitrary: i)
  case Nil
  then show ?case by (simp split: if_splits)
next
  case (Cons c cs)
  show ?case
  proof (cases "prefix pat (c # cs)")
    case True
    then obtain zs where zs: "c # cs = pat @ zs" by (auto simp: prefix_def)
    from True Cons.prems have "i = 0" by simp
    with zs show ?thesis by simp
  next
    case False
    with Cons.prems obtain j where j: "indexOf cs pat = Some j" and i: "i = Suc j" by auto
    from Cons.IH [OF j] i show ?thesis by simp
  qed
qed

lemma indexOf_take:
  "indexOf s pat = Some i \<Longrightarrow> indexOf (take i s @ pat) pat = Some i"
proof (induction s arbitrary: i)
  case Nil
  then show ?case by (simp split: if_splits)
next
  case (Cons c cs)
  show ?case
  proof (cases "prefix pat (c # cs)")
    case True
    with Cons.prems have "i = 0" by simp
    then show ?thesis by (simp add: indexOf_self)
  next
    case False
    with Cons.prems obtain j where j: "indexOf cs pat = Some j" and i: "i = Suc j" by auto
    have np: "\<not> prefix pat (c # (take j cs @ pat))"
    proof
      assume "prefix pat (c # (take j cs @ pat))"
      then have "prefix pat ((c # (take j cs @ pat)) @ drop (j + length pat) cs)"
        by (rule prefix_prefix)
      moreover have "(c # (take j cs @ pat)) @ drop (j + length pat) cs = c # cs"
        using indexOf_Some_decomp [OF j] by simp
      ultimately show False using False by simp
    qed
    from Cons.IH [OF j] have "indexOf (take j cs @ pat) pat = Some j" .
    with np i show ?thesis by simp
  qed
qed

lemma take_indexOf_is_frame:
  assumes "indexOf s separator = Some i"
  shows "is_frame (take i s)"
proof -
  from assms have "i \<le> length s" using indexOf_Some_le by fastforce
  then have "length (take i s) = i" by simp
  with indexOf_take [OF assms] show ?thesis by (simp add: is_frame_def)
qed

lemma text_frames_tail:
  "\<exists>fs t. s = wire fs @ t \<and> (\<forall>f \<in> set fs. is_frame f) \<and> indexOf t separator = None"
proof (induction s rule: length_induct)
  case (1 s)
  show ?case
  proof (cases "indexOf s separator")
    case None
    then have "s = wire [] @ s \<and> (\<forall>f \<in> set []. is_frame f) \<and> indexOf s separator = None"
      by (simp add: wire_def)
    then show ?thesis by blast
  next
    case (Some i)
    define r where "r = drop (i + 2) s"
    from Some have "i + 2 \<le> length s"
      using indexOf_Some_le [of s separator i] by (simp add: separator_def)
    then have "length r < length s" by (simp add: r_def)
    with 1 obtain fs t where r: "r = wire fs @ t" and fs: "\<forall>f \<in> set fs. is_frame f"
      and t: "indexOf t separator = None"
      by blast
    have "s = take i s @ separator @ r"
      using indexOf_Some_decomp [OF Some] by (simp add: r_def separator_def)
    with r have "s = wire (take i s # fs) @ t" by (simp add: wire_def)
    moreover from fs take_indexOf_is_frame [OF Some]
    have "\<forall>f \<in> set (take i s # fs). is_frame f" by simp
    ultimately show ?thesis using t by blast
  qed
qed

lemma process_buffer_wire_tail:
  assumes "\<forall>f \<in> set frames. is_frame f" and "indexOf tail separator = None"
  shows "process_buffer parse (wire frames @ tail) = (concat (map (handle_message parse) frames), tail)"
  using process_buffer_wire [OF assms(1), of parse tail] process_buffer_None [OF assms(2), of parse]
  by simp

section \<open>Properties of the reassembler\<close>

text \<open>
  C1. Chunk-boundary independence: two sequences of chunks that concatenate to the same
  text give the same sequence of output parts, in the same order, whatever the parser.
  A boundary inside a frame therefore changes nothing once the rest of the frame has
  arrived.
\<close>

theorem chunk_boundary_independence:
  "concat chunks1 = concat chunks2 \<Longrightarrow> output_parts parse chunks1 = output_parts parse chunks2"
  by (simp add: output_parts_whole)

theorem chunk_boundary_independence_witness:
  \<open>concat [''data: {"type":"text-delta","del'', ''ta":"X"}'' @ [LF, LF]] =
     concat [''data: {"type":"text-delta","delta":"X"}'' @ [LF, LF]] \<and>
   output_parts JSON_parse [''data: {"type":"text-delta","del'', ''ta":"X"}'' @ [LF, LF]] =
     output_parts JSON_parse [''data: {"type":"text-delta","delta":"X"}'' @ [LF, LF]] \<and>
   output_parts JSON_parse [''data: {"type":"text-delta","delta":"X"}'' @ [LF, LF]] =
     [TextDeltaPart ''text-block'' ''X'']\<close>
proof -
  have h: \<open>concat [''data: {"type":"text-delta","del'', ''ta":"X"}'' @ [LF, LF]] =
     concat [''data: {"type":"text-delta","delta":"X"}'' @ [LF, LF]]\<close>
    by simp
  have v: \<open>output_parts JSON_parse [''data: {"type":"text-delta","delta":"X"}'' @ [LF, LF]] =
     [TextDeltaPart ''text-block'' ''X'']\<close>
    by code_simp
  from h chunk_boundary_independence [OF h, of JSON_parse] v show ?thesis
    by (intro conjI)
qed

text \<open>
  C9. Invariant of the reassembler. The text held after appending a chunk is, in one
  way or another, a sequence of complete frames followed by a rest without separator.
  Whenever it is read so, the transform handles exactly those frames, each once and in
  order, before it returns, and keeps exactly that rest: no complete frame is carried
  over to a later chunk, and the kept buffer is never of the form \<open>pre @ separator @ post\<close>.
\<close>

theorem no_complete_frame_carried_over:
  "(\<exists>fs t. buffer @ chunk = wire fs @ t \<and> (\<forall>f \<in> set fs. is_frame f) \<and>
      indexOf t separator = None) \<and>
   ((\<forall>f \<in> set frames. is_frame f) \<and> indexOf tail separator = None \<and>
    buffer @ chunk = wire frames @ tail \<longrightarrow>
      transform parse buffer chunk =
        (Log (ReceivedRawChunk chunk) # concat (map (handle_message parse) frames), tail)) \<and>
   snd (transform parse buffer chunk) \<noteq> pre @ separator @ post"
proof (intro conjI impI)
  show "\<exists>fs t. buffer @ chunk = wire fs @ t \<and> (\<forall>f \<in> set fs. is_frame f) \<and>
      indexOf t separator = None"
    by (rule text_frames_tail)
next
  assume h: "(\<forall>f \<in> set frames. is_frame f) \<and> indexOf tail separator = None \<and>
    buffer @ chunk = wire frames @ tail"
  then have "process_buffer parse (buffer @ chunk) =
      (concat (map (handle_message parse) frames), tail)"
    using process_buffer_wire_tail [of frames tail parse] by simp
  then show "transform parse buffer chunk =
      (Log (ReceivedRawChunk chunk) # concat (map (handle_message parse) frames), tail)"
    by (simp add: transform_eq)
next
  have "indexOf (snd (process_buffer parse (buffer @ chunk))) separator = None"
    by (rule process_buffer_rest_no_separator)
  then have "snd (process_buffer parse (buffer @ chunk)) \<noteq> pre @ separator @ post"
    by (rule indexOf_None_no_occurrence)
  then show "snd (transform parse buffer chunk) \<noteq> pre @ separator @ post"
    by (simp add: transform_eq)
qed

theorem no_complete_frame_carried_over_witness:
  \<open>transform JSON_parse ''data: {"type":"sta''
     (''rt"}'' @ [LF, LF] @ ''data: [DONE]'' @ [LF, LF] @ ''data: {"ty'') =
     ([Log (ReceivedRawChunk (''rt"}'' @ [LF, LF] @ ''data: [DONE]'' @ [LF, LF] @ ''data: {"ty'')),
       Log (ParsedAndValidatedEvent
         \<lparr>type = Start, messageId = None, id' = None, delta = None, errorText = None,
          finishReason = None, usage = None, answer = None, data = None\<rparr>),
       Enqueue (StreamStartPart [])],
      ''data: {"ty'')\<close>
proof -
  have f1: \<open>is_frame ''data: {"type":"start"}''\<close> by code_simp
  have f2: \<open>is_frame ''data: [DONE]''\<close> by code_simp
  from f1 f2 have fr: \<open>\<forall>f \<in> set [''data: {"type":"start"}'', ''data: [DONE]'']. is_frame f\<close>
    by simp
  have t: \<open>indexOf ''data: {"ty'' separator = None\<close> by code_simp
  have w: \<open>''data: {"type":"sta'' @ (''rt"}'' @ [LF, LF] @ ''data: [DONE]'' @ [LF, LF] @ ''data: {"ty'') =
      wire [''data: {"type":"start"}'', ''data: [DONE]''] @ ''data: {"ty''\<close>
    by (simp add: wire_def separator_def)
  have v: \<open>concat (map (handle_message JSON_parse) [''data: {"type":"start"}'', ''data: [DONE]'']) =
      [Log (ParsedAndValidatedEvent
         \<lparr>type = Start, messageId = None, id' = None, delta = None, errorText = None,
          finishReason = None, usage = None, answer = None, data = None\<rparr>),
       Enqueue (StreamStartPart [])]\<close>
    by code_simp
  from no_complete_frame_carried_over
    [of \<open>''data: {"type":"sta''\<close>
      \<open>''rt"}'' @ [LF, LF] @ ''data: [DONE]'' @ [LF, LF] @ ''data: {"ty''\<close>
      \<open>[''data: {"type":"start"}'', ''data: [DONE]'']\<close> \<open>''data: {"ty''\<close> JSON_parse]
    fr t w
  have \<open>transform JSON_parse ''data: {"type":"sta''
     (''rt"}'' @ [LF, LF] @ ''data: [DONE]'' @ [LF, LF] @ ''data: {"ty'') =
     (Log (ReceivedRawChunk (''rt"}'' @ [LF, LF] @ ''data: [DONE]'' @ [LF, LF] @ ''data: {"ty'')) #
        concat (map (handle_message JSON_parse) [''data: {"type":"start"}'', ''data: [DONE]'']),
      ''data: {"ty'')\<close>
    by blast
  then show ?thesis by (simp only: v)
qed

section \<open>Properties of the translator\<close>







section \<open>Properties of the frame handler\<close>

lemma trim_empty_iff: "trim s = [] \<longleftrightarrow> (\<forall>c \<in> set s. isWhiteSpace c)"
proof
  assume "trim s = []"
  then have all: "\<forall>c \<in> set (dropWhile isWhiteSpace s). isWhiteSpace c"
    by (simp add: trim_def dropWhile_eq_Nil_conv)
  have "dropWhile isWhiteSpace s = []"
  proof (rule ccontr)
    assume ne: "dropWhile isWhiteSpace s \<noteq> []"
    then have "\<not> isWhiteSpace (hd (dropWhile isWhiteSpace s))" by (rule hd_dropWhile)
    moreover from ne have "hd (dropWhile isWhiteSpace s) \<in> set (dropWhile isWhiteSpace s)" by simp
    ultimately show False using all by blast
  qed
  then show "\<forall>c \<in> set s. isWhiteSpace c" by (simp add: dropWhile_eq_Nil_conv)
next
  assume "\<forall>c \<in> set s. isWhiteSpace c"
  then have "dropWhile isWhiteSpace s = []" by (simp add: dropWhile_eq_Nil_conv)
  then show "trim s = []" by (simp only: trim_def rev.simps dropWhile.simps)
qed

lemma parse_and_translate_not_Nil: "parse_and_translate parse s \<noteq> []"
  by (simp add: parse_and_translate_def split: option.split)

lemma enqueued_map_Enqueue: "enqueued (map Enqueue ps) = ps"
  by (induction ps) simp_all

lemma startsWith_append: "startsWith (p @ s) (p @ q) = startsWith s q"
  by (simp add: startsWith_def)

text \<open>
  C2 (as amended). A frame is silently discarded, with no part enqueued and no
  diagnostic, if and only if it is empty after trimming white space or it starts with
  the marker \<^verbatim>\<open>data: [DONE]\<close>; every other frame has its prefix stripped and goes through
  parsing and validation.
\<close>

theorem discarded_frames:
  "(handle_message parse message = [] \<longleftrightarrow>
      trim message = [] \<or> startsWith message ''data: [DONE]'') \<and>
   (\<not> (trim message = [] \<or> startsWith message ''data: [DONE]'') \<longrightarrow>
      handle_message parse message = parse_and_translate parse (replace_data_prefix message))"
  by (simp add: handle_message_def parse_and_translate_not_Nil)

theorem discarded_frames_witness:
  \<open>handle_message JSON_parse ''data: [DONE]'' = [] \<and>
   handle_message JSON_parse ''data: {"type":"start"}'' =
     parse_and_translate JSON_parse (replace_data_prefix ''data: {"type":"start"}'') \<and>
   handle_message JSON_parse ''data: {"type":"start"}'' \<noteq> []\<close>
proof -
  have t: \<open>trim ''data: {"type":"start"}'' \<noteq> []\<close>
    by (simp add: trim_empty_iff isWhiteSpace_def)
  have a: \<open>handle_message JSON_parse ''data: [DONE]'' = []\<close>
    using discarded_frames [of JSON_parse "''data: [DONE]''"] by (simp add: startsWith_def)
  have b: \<open>handle_message JSON_parse ''data: {"type":"start"}'' =
     parse_and_translate JSON_parse (replace_data_prefix ''data: {"type":"start"}'')\<close>
    and c: \<open>handle_message JSON_parse ''data: {"type":"start"}'' \<noteq> []\<close>
    using discarded_frames [of JSON_parse \<open>''data: {"type":"start"}''\<close>] t
    by (auto simp add: startsWith_def)
  from a b c show ?thesis by (intro conjI)
qed

text \<open>
  The claim as it was stated asks for equality with the marker. The frame
  \<^verbatim>\<open>data: [DONE] bye\<close> is not empty after trimming and is not equal to the marker, and it
  is discarded all the same: nothing is logged for it, where parsing its payload would
  have logged a failure.
\<close>

theorem discarded_frames_counterexample:
  "handle_message JSON_parse ''data: [DONE] bye'' = [] \<and>
   trim ''data: [DONE] bye'' \<noteq> [] \<and>
   ''data: [DONE] bye'' \<noteq> ''data: [DONE]'' \<and>
   parse_and_translate JSON_parse (replace_data_prefix ''data: [DONE] bye'') =
     [Log (FailedToParseJSON ''[DONE] bye'')]"
proof -
  have a: "handle_message JSON_parse ''data: [DONE] bye'' = []"
    by (simp add: handle_message_def startsWith_def)
  have b: "trim ''data: [DONE] bye'' \<noteq> []"
    by (simp add: trim_empty_iff isWhiteSpace_def)
  have c: "''data: [DONE] bye'' \<noteq> ''data: [DONE]''" by simp
  have d: "parse_and_translate JSON_parse (replace_data_prefix ''data: [DONE] bye'') =
     [Log (FailedToParseJSON ''[DONE] bye'')]"
    by code_simp
  from a b c d show ?thesis by (intro conjI)
qed

text \<open>
  C10. Of a frame that is not discarded, exactly one leading \<^verbatim>\<open>data: \<close> is removed before
  parsing: the frame \<open>''data: '' @ payload\<close> is parsed as \<open>payload\<close>, also when \<open>payload\<close>
  itself starts with \<^verbatim>\<open>data: \<close>. A frame that does not start with \<^verbatim>\<open>data: \<close> is parsed as it
  is, so a frame of bare JSON that parses and validates enqueues the parts of its event.
\<close>

theorem prefix_stripped_once:
  "(\<not> startsWith payload ''[DONE]'' \<longrightarrow>
      handle_message parse (''data: '' @ payload) = parse_and_translate parse payload) \<and>
   (trim message \<noteq> [] \<and> \<not> startsWith message ''data: '' \<longrightarrow>
      handle_message parse message = parse_and_translate parse message) \<and>
   (trim message \<noteq> [] \<and> \<not> startsWith message ''data: '' \<and>
    parse message = Some json \<and> safeParse json = Some event \<longrightarrow>
      enqueued (handle_message parse message) = translate event)"
proof (intro conjI impI)
  assume nd: "\<not> startsWith payload ''[DONE]''"
  have t: "trim (''data: '' @ payload) \<noteq> []"
    by (simp add: trim_empty_iff isWhiteSpace_def)
  have g: "\<not> startsWith (''data: '' @ payload) ''data: [DONE]''"
    using nd startsWith_append [of "''data: ''" payload "''[DONE]''"] by simp
  have r: "replace_data_prefix (''data: '' @ payload) = payload"
    by (simp add: replace_data_prefix_def startsWith_def)
  from t g r show "handle_message parse (''data: '' @ payload) = parse_and_translate parse payload"
    by (simp add: handle_message_def del: append.simps)
next
  assume a: "trim message \<noteq> [] \<and> \<not> startsWith message ''data: ''"
  then have g: "\<not> startsWith message ''data: [DONE]''"
    by (auto simp: startsWith_def prefix_def)
  from a g show "handle_message parse message = parse_and_translate parse message"
    by (simp add: handle_message_def replace_data_prefix_def)
next
  assume a: "trim message \<noteq> [] \<and> \<not> startsWith message ''data: '' \<and>
    parse message = Some json \<and> safeParse json = Some event"
  then have g: "\<not> startsWith message ''data: [DONE]''"
    by (auto simp: startsWith_def prefix_def)
  from a g show "enqueued (handle_message parse message) = translate event"
    by (simp add: handle_message_def replace_data_prefix_def parse_and_translate_def
        enqueued_map_Enqueue)
qed

theorem prefix_stripped_once_witness:
  \<open>handle_message JSON_parse ''data: data: {"type":"start"}'' =
     parse_and_translate JSON_parse ''data: {"type":"start"}'' \<and>
   handle_message JSON_parse ''{"type":"start"}'' = parse_and_translate JSON_parse ''{"type":"start"}'' \<and>
   enqueued (handle_message JSON_parse ''{"type":"start"}'') = [StreamStartPart []]\<close>
proof -
  define event where "event = \<lparr>type = Start, messageId = None, id' = None, delta = None,
    errorText = None, finishReason = None, usage = None, answer = None, data = None\<rparr>"
  have p: \<open>JSON_parse ''{"type":"start"}'' = Some (JObject [(''type'', JString ''start'')])\<close>
    by code_simp
  have v: "safeParse (JObject [(''type'', JString ''start'')]) = Some event"
    by (simp add: event_def safeParse_def z_required_def z_optional_def z_enum_type_def)
  have t: \<open>trim ''{"type":"start"}'' \<noteq> []\<close>
    by (simp add: trim_empty_iff isWhiteSpace_def)
  have n: \<open>\<not> startsWith ''{"type":"start"}'' ''data: ''\<close>
    by (simp add: startsWith_def)
  have d: \<open>\<not> startsWith ''data: {"type":"start"}'' ''[DONE]''\<close>
    by (simp add: startsWith_def)
  have tr: "translate event = [StreamStartPart []]"
    by (simp add: event_def translate_def)
  note T = prefix_stripped_once
    [of \<open>''data: {"type":"start"}''\<close> JSON_parse \<open>''{"type":"start"}''\<close>
      "JObject [(''type'', JString ''start'')]" event]
  from T d have a: \<open>handle_message JSON_parse (''data: '' @ ''data: {"type":"start"}'') =
     parse_and_translate JSON_parse ''data: {"type":"start"}''\<close>
    by blast
  from T t n have b: \<open>handle_message JSON_parse ''{"type":"start"}'' =
     parse_and_translate JSON_parse ''{"type":"start"}''\<close>
    by blast
  from T t n p v have \<open>enqueued (handle_message JSON_parse ''{"type":"start"}'') = translate event\<close>
    by blast
  with tr have c: \<open>enqueued (handle_message JSON_parse ''{"type":"start"}'') = [StreamStartPart []]\<close>
    by (simp only:)
  from a have a': \<open>handle_message JSON_parse ''data: data: {"type":"start"}'' =
     parse_and_translate JSON_parse ''data: {"type":"start"}''\<close>
    by (simp only: append.simps)
  from a' b c show ?thesis by (intro conjI)
qed

section \<open>Streams of frames\<close>

text \<open>
  C3. A frame whose payload does not parse, or parses to a value the schema rejects
  (an unknown \<open>type\<close> among them), enqueues no part. The transform is a total function
  whose only results are effects and a buffer: the failure is a logged diagnostic, not
  an exception. In a stream of frames, every other frame enqueues its own parts, in
  order, as if the rejected frame were not there.
\<close>

theorem invalid_frame_skipped:
  assumes "parse (replace_data_prefix message) = None \<or>
           (\<exists>json. parse (replace_data_prefix message) = Some json \<and> safeParse json = None)"
  shows "enqueued (handle_message parse message) = [] \<and>
         ((\<forall>f \<in> set (before @ message # after). is_frame f) \<and>
          concat chunks = wire (before @ message # after) \<longrightarrow>
            output_parts parse chunks =
              concat (map (\<lambda>f. enqueued (handle_message parse f)) (before @ after)))"
proof -
  from assms have skip: "enqueued (handle_message parse message) = []"
    by (auto simp: handle_message_def parse_and_translate_def)
  show ?thesis
  proof (intro conjI impI)
    show "enqueued (handle_message parse message) = []" by (rule skip)
  next
    assume h: "(\<forall>f \<in> set (before @ message # after). is_frame f) \<and>
          concat chunks = wire (before @ message # after)"
    then have "output_parts parse chunks =
        concat (map (\<lambda>f. enqueued (handle_message parse f)) (before @ message # after))"
      using output_parts_wire [of "before @ message # after" chunks parse] by simp
    with skip show "output_parts parse chunks =
        concat (map (\<lambda>f. enqueued (handle_message parse f)) (before @ after))"
      by simp
  qed
qed

theorem invalid_frame_skipped_witness:
  \<open>output_parts JSON_parse
     [''data: {"type":"start"}'' @ [LF, LF] @ ''data: {"ty'',
      ''pe":"bogus"}'' @ [LF, LF] @ ''data: {"type":"text-delta","delta":"X"}'' @ [LF, LF]] =
     [StreamStartPart [], TextDeltaPart ''text-block'' ''X''] \<and>
   enqueued (handle_message JSON_parse ''data: {"type":"bogus"}'') = [] \<and>
   enqueued (handle_message JSON_parse ''data: {nope'') = []\<close>
proof -
  have p: \<open>JSON_parse (replace_data_prefix ''data: {"type":"bogus"}'') =
      Some (JObject [(''type'', JString ''bogus'')])\<close>
    by code_simp
  have v: "safeParse (JObject [(''type'', JString ''bogus'')]) = None"
    by (simp add: safeParse_def z_required_def z_enum_type_def)
  from p v have h: \<open>JSON_parse (replace_data_prefix ''data: {"type":"bogus"}'') = None \<or>
      (\<exists>json. JSON_parse (replace_data_prefix ''data: {"type":"bogus"}'') = Some json \<and>
         safeParse json = None)\<close>
    by blast
  have q: \<open>JSON_parse (replace_data_prefix ''data: {nope'') = None\<close>
    by code_simp
  then have h': \<open>JSON_parse (replace_data_prefix ''data: {nope'') = None \<or>
      (\<exists>json. JSON_parse (replace_data_prefix ''data: {nope'') = Some json \<and> safeParse json = None)\<close>
    by blast
  have f1: \<open>is_frame ''data: {"type":"start"}''\<close> by code_simp
  have f2: \<open>is_frame ''data: {"type":"bogus"}''\<close> by code_simp
  have f3: \<open>is_frame ''data: {"type":"text-delta","delta":"X"}''\<close> by code_simp
  from f1 f2 f3 have fr: \<open>\<forall>f \<in> set ([''data: {"type":"start"}''] @ ''data: {"type":"bogus"}'' #
      [''data: {"type":"text-delta","delta":"X"}'']). is_frame f\<close>
    by simp
  have cc: \<open>concat [''data: {"type":"start"}'' @ [LF, LF] @ ''data: {"ty'',
      ''pe":"bogus"}'' @ [LF, LF] @ ''data: {"type":"text-delta","delta":"X"}'' @ [LF, LF]] =
      wire ([''data: {"type":"start"}''] @ ''data: {"type":"bogus"}'' #
        [''data: {"type":"text-delta","delta":"X"}''])\<close>
    by (simp add: wire_def separator_def)
  note T = invalid_frame_skipped [of JSON_parse \<open>''data: {"type":"bogus"}''\<close>
        \<open>[''data: {"type":"start"}'']\<close> \<open>[''data: {"type":"text-delta","delta":"X"}'']\<close>
        \<open>[''data: {"type":"start"}'' @ [LF, LF] @ ''data: {"ty'',
      ''pe":"bogus"}'' @ [LF, LF] @ ''data: {"type":"text-delta","delta":"X"}'' @ [LF, LF]]\<close>]
  from T h have a: \<open>enqueued (handle_message JSON_parse ''data: {"type":"bogus"}'') = []\<close>
    by blast
  from T h fr cc have \<open>output_parts JSON_parse
     [''data: {"type":"start"}'' @ [LF, LF] @ ''data: {"ty'',
      ''pe":"bogus"}'' @ [LF, LF] @ ''data: {"type":"text-delta","delta":"X"}'' @ [LF, LF]] =
      concat (map (\<lambda>f. enqueued (handle_message JSON_parse f))
        ([''data: {"type":"start"}''] @ [''data: {"type":"text-delta","delta":"X"}'']))\<close>
    by blast
  also have \<open>\<dots> = [StreamStartPart [], TextDeltaPart ''text-block'' ''X'']\<close>
    by code_simp
  finally have b: \<open>output_parts JSON_parse
     [''data: {"type":"start"}'' @ [LF, LF] @ ''data: {"ty'',
      ''pe":"bogus"}'' @ [LF, LF] @ ''data: {"type":"text-delta","delta":"X"}'' @ [LF, LF]] =
     [StreamStartPart [], TextDeltaPart ''text-block'' ''X'']\<close> .
  from invalid_frame_skipped [of JSON_parse "''data: {nope''" "[]" "[]" "[]"] h'
  have c: \<open>enqueued (handle_message JSON_parse ''data: {nope'') = []\<close>
    by blast
  from b a c show ?thesis by (intro conjI)
qed

section \<open>Deltas\<close>

lemma text_delta_fields_append:
  "text_delta_fields (xs @ ys) = text_delta_fields xs @ text_delta_fields ys"
  by (simp add: text_delta_fields_def)

lemma emitted_text_deltas_concat:
  "emitted_text_deltas (concat pss) = concat (map emitted_text_deltas pss)"
  by (induction pss) (simp_all add: emitted_text_deltas_def)

lemma text_delta_fields_map_filter:
  "text_delta_fields (List.map_filter g fs) =
     concat (map (\<lambda>f. text_delta_fields (case g f of None \<Rightarrow> [] | Some e \<Rightarrow> [e])) fs)"
proof (induction fs)
  case Nil
  then show ?case by (simp add: List.map_filter_simps text_delta_fields_def)
next
  case (Cons f fs)
  have "text_delta_fields (List.map_filter g (f # fs)) =
      text_delta_fields ((case g f of None \<Rightarrow> [] | Some e \<Rightarrow> [e]) @ List.map_filter g fs)"
    by (simp add: List.map_filter_simps split: option.split)
  with Cons.IH show ?case by (simp add: text_delta_fields_append)
qed

lemma translate_text_deltas:
  "emitted_text_deltas (translate event) = text_delta_fields [event]"
  by (cases "type event")
    (auto simp: translate_def emitted_text_deltas_def text_delta_fields_def split: option.split)

lemma handle_message_text_deltas:
  assumes "trim f = [] \<or> startsWith f ''data: [DONE]'' \<longrightarrow> backend_event parse f = None"
  shows "emitted_text_deltas (enqueued (handle_message parse f)) =
     text_delta_fields (case backend_event parse f of None \<Rightarrow> [] | Some e \<Rightarrow> [e])"
proof (cases "trim f = [] \<or> startsWith f ''data: [DONE]''")
  case True
  with assms have "backend_event parse f = None" by simp
  moreover from True have "handle_message parse f = []" by (simp add: handle_message_def)
  ultimately show ?thesis by (simp add: emitted_text_deltas_def text_delta_fields_def)
next
  case False
  then have h: "handle_message parse f = parse_and_translate parse (replace_data_prefix f)"
    by (simp add: handle_message_def)
  show ?thesis
  proof (cases "parse (replace_data_prefix f)")
    case None
    with h show ?thesis
      by (simp add: parse_and_translate_def backend_event_def emitted_text_deltas_def
          text_delta_fields_def)
  next
    case (Some json)
    show ?thesis
    proof (cases "safeParse json")
      case None
      with Some h show ?thesis
        by (simp add: parse_and_translate_def backend_event_def emitted_text_deltas_def
            text_delta_fields_def)
    next
      case (Some event)
      with \<open>parse (replace_data_prefix f) = Some json\<close> h show ?thesis
        by (simp add: parse_and_translate_def backend_event_def enqueued_map_Enqueue
            translate_text_deltas)
    qed
  qed
qed

lemma output_text_deltas:
  assumes fr: "\<forall>f \<in> set frames. is_frame f"
    and tl: "indexOf tail separator = None"
    and ev: "\<forall>f \<in> set frames.
      trim f = [] \<or> startsWith f ''data: [DONE]'' \<longrightarrow> backend_event parse f = None"
    and cc: "concat chunks = wire frames @ tail"
  shows "emitted_text_deltas (output_parts parse chunks) =
     text_delta_fields (List.map_filter (backend_event parse) frames)"
proof -
  have "output_parts parse chunks = enqueued (concat (map (handle_message parse) frames))"
    using process_buffer_wire_tail [OF fr tl, of parse] cc by (simp add: output_parts_whole)
  then have "emitted_text_deltas (output_parts parse chunks) =
      concat (map (\<lambda>f. emitted_text_deltas (enqueued (handle_message parse f))) frames)"
    by (simp add: enqueued_concat emitted_text_deltas_concat comp_def)
  also have "\<dots> = concat (map (\<lambda>f. text_delta_fields
      (case backend_event parse f of None \<Rightarrow> [] | Some e \<Rightarrow> [e])) frames)"
  proof -
    have "map (\<lambda>f. emitted_text_deltas (enqueued (handle_message parse f))) frames =
        map (\<lambda>f. text_delta_fields
          (case backend_event parse f of None \<Rightarrow> [] | Some e \<Rightarrow> [e])) frames"
    proof (rule map_cong [OF refl])
      fix f assume "f \<in> set frames"
      with ev have "trim f = [] \<or> startsWith f ''data: [DONE]'' \<longrightarrow> backend_event parse f = None"
        by blast
      then show "emitted_text_deltas (enqueued (handle_message parse f)) =
          text_delta_fields (case backend_event parse f of None \<Rightarrow> [] | Some e \<Rightarrow> [e])"
        by (rule handle_message_text_deltas)
    qed
    then show ?thesis by (rule arg_cong)
  qed
  also have "\<dots> = text_delta_fields (List.map_filter (backend_event parse) frames)"
    by (simp add: text_delta_fields_map_filter)
  finally show ?thesis .
qed

text \<open>The JSON grammar accepts neither a blank text nor a text that starts with \<^verbatim>\<open>[DONE]\<close>.\<close>

lemma parse_value_Nil: "parse_value n [] = None"
  by (cases n) simp_all

lemma parse_value_whitespace:
  assumes "isWhiteSpace c"
  shows "parse_value n (c # cs) = None"
proof (cases n)
  case 0
  then show ?thesis by simp
next
  case (Suc m)
  from assms have c: "c \<noteq> CHR ''{''" "c \<noteq> CHR ''[''" "c \<noteq> CHR 0x22" "c \<noteq> CHR ''t''"
    "c \<noteq> CHR ''f''" "c \<noteq> CHR ''n''" "c \<noteq> CHR ''-''" "\<not> isDigit c"
    by (auto simp: isWhiteSpace_def isDigit_def)
  from c have pn: "parse_number (c # cs) = None"
    by (simp add: parse_number_def)
  from c have sw: "\<not> startsWith (c # cs) ''true''" "\<not> startsWith (c # cs) ''false''"
    "\<not> startsWith (c # cs) ''null''"
    by (simp_all add: startsWith_def)
  from Suc c pn sw show ?thesis by simp
qed

lemma JSON_parse_blank:
  assumes "trim s = []"
  shows "JSON_parse s = None"
proof (cases "skip_ws s")
  case Nil
  then show ?thesis by (simp only: JSON_parse_def parse_value_Nil option.case)
next
  case (Cons c cs)
  then have "c \<in> set (dropWhile isJsonWhiteSpace s)" by (simp add: skip_ws_def)
  then have "c \<in> set s" by (rule set_dropWhileD)
  with assms have "isWhiteSpace c" by (simp add: trim_empty_iff)
  then have "parse_value (2 * length s + 2) (c # cs) = None" by (rule parse_value_whitespace)
  with Cons show ?thesis by (simp only: JSON_parse_def option.case)
qed

lemma parse_value_D: "parse_value n (CHR ''D'' # r) = None"
  by (cases n) (simp_all add: startsWith_def parse_number_def isDigit_def Let_def)

lemma parse_elements_D: "parse_elements n acc (CHR ''D'' # r) = None"
  by (cases n) (simp_all add: parse_value_D)

lemma parse_value_bracket_D: "parse_value n (CHR ''['' # CHR ''D'' # r) = None"
  by (cases n)
    (simp_all add: skip_ws_def isJsonWhiteSpace_def startsWith_def parse_elements_D)

lemma JSON_parse_DONE: "JSON_parse (''[DONE]'' @ r) = None"
proof -
  have "skip_ws (''[DONE]'' @ r) = CHR ''['' # CHR ''D'' # (''ONE]'' @ r)"
    by (simp add: skip_ws_def isJsonWhiteSpace_def)
  then show ?thesis by (simp only: JSON_parse_def parse_value_bracket_D option.case)
qed

lemma backend_event_discarded:
  assumes "trim f = [] \<or> startsWith f ''data: [DONE]''"
  shows "backend_event JSON_parse f = None"
proof (cases "startsWith f ''data: [DONE]''")
  case True
  then obtain r where "f = ''data: [DONE]'' @ r" by (auto simp: startsWith_def prefix_def)
  then have "replace_data_prefix f = ''[DONE]'' @ r"
    by (simp add: replace_data_prefix_def startsWith_def)
  then show ?thesis by (simp only: backend_event_def JSON_parse_DONE option.case)
next
  case False
  with assms have t: "trim f = []" by simp
  have "\<not> startsWith f ''data: ''"
  proof
    assume "startsWith f ''data: ''"
    then have "CHR ''d'' \<in> set f" by (auto simp: startsWith_def prefix_def)
    with t have "isWhiteSpace (CHR ''d'')" by (simp add: trim_empty_iff)
    then show False by (simp add: isWhiteSpace_def)
  qed
  then have "replace_data_prefix f = f" by (simp add: replace_data_prefix_def)
  with JSON_parse_blank [OF t] show ?thesis by (simp add: backend_event_def)
qed

text \<open>
  C6. A validated \<open>text-delta\<close> or \<open>reasoning-delta\<close> event whose \<open>delta\<close> is absent or
  empty gives no output part. Every input stream reads as complete frames followed by
  a rest without separator, and for every such reading, however the stream is chunked:
  the \<open>delta\<close> fields of
  the emitted \<open>text-delta\<close> parts concatenated in order are the non-empty \<open>delta\<close> fields
  of the valid \<open>text-delta\<close> events of the frames concatenated in order. The parser is
  any function under which a blank frame and a frame starting with \<^verbatim>\<open>data: [DONE]\<close>
  carry no event, as is the case for the JSON grammar.
\<close>

theorem delta_translation:
  "((type event = TextDelta \<or> type event = ReasoningDelta) \<and>
    (delta event = None \<or> delta event = Some []) \<longrightarrow> translate event = []) \<and>
   (\<exists>fs t. concat chunks = wire fs @ t \<and> (\<forall>f \<in> set fs. is_frame f) \<and>
      indexOf t separator = None) \<and>
   ((\<forall>f \<in> set frames. is_frame f) \<and> indexOf tail separator = None \<and>
    (\<forall>f \<in> set frames.
       trim f = [] \<or> startsWith f ''data: [DONE]'' \<longrightarrow> backend_event parse f = None) \<and>
    concat chunks = wire frames @ tail \<longrightarrow>
      concat (emitted_text_deltas (output_parts parse chunks)) =
        concat (text_delta_fields (List.map_filter (backend_event parse) frames)))"
proof (intro conjI impI)
  assume "(type event = TextDelta \<or> type event = ReasoningDelta) \<and>
    (delta event = None \<or> delta event = Some [])"
  then show "translate event = []"
    by (auto simp: translate_def)
next
  show "\<exists>fs t. concat chunks = wire fs @ t \<and> (\<forall>f \<in> set fs. is_frame f) \<and>
      indexOf t separator = None"
    by (rule text_frames_tail)
next
  assume h: "(\<forall>f \<in> set frames. is_frame f) \<and> indexOf tail separator = None \<and>
    (\<forall>f \<in> set frames.
       trim f = [] \<or> startsWith f ''data: [DONE]'' \<longrightarrow> backend_event parse f = None) \<and>
    concat chunks = wire frames @ tail"
  then have "emitted_text_deltas (output_parts parse chunks) =
      text_delta_fields (List.map_filter (backend_event parse) frames)"
    using output_text_deltas [of frames tail parse chunks] by blast
  then show "concat (emitted_text_deltas (output_parts parse chunks)) =
      concat (text_delta_fields (List.map_filter (backend_event parse) frames))"
    by simp
qed

theorem delta_translation_witness:
  \<open>translate \<lparr>type = TextDelta, messageId = None, id' = Some ''t1'', delta = Some [],
           errorText = None, finishReason = None, usage = None, answer = None, data = None\<rparr> = [] \<and>
   concat (emitted_text_deltas (output_parts JSON_parse
     [''data: {"type":"text-delta","id":"t1","delta":"Hi"}'' @ [LF, LF] @ ''data: {"type":"text-del'',
      ''ta","id":"t1","delta":""}'' @ [LF, LF] @
      ''data: {"type":"text-delta","id":"t1","delta":" there"}'' @ [LF, LF] @
      ''data: [DONE]'' @ [LF, LF] @ ''data: {"ty''])) = ''Hi there''\<close>
proof -
  define frames where \<open>frames =
    [''data: {"type":"text-delta","id":"t1","delta":"Hi"}'',
     ''data: {"type":"text-delta","id":"t1","delta":""}'',
     ''data: {"type":"text-delta","id":"t1","delta":" there"}'',
     ''data: [DONE]'']\<close>
  define chunks where \<open>chunks =
    [''data: {"type":"text-delta","id":"t1","delta":"Hi"}'' @ [LF, LF] @ ''data: {"type":"text-del'',
      ''ta","id":"t1","delta":""}'' @ [LF, LF] @
      ''data: {"type":"text-delta","id":"t1","delta":" there"}'' @ [LF, LF] @
      ''data: [DONE]'' @ [LF, LF] @ ''data: {"ty'']\<close>
  note T = delta_translation
    [of "\<lparr>type = TextDelta, messageId = None, id' = Some ''t1'', delta = Some [],
           errorText = None, finishReason = None, usage = None, answer = None, data = None\<rparr>"
      chunks frames \<open>''data: {"ty''\<close> JSON_parse]
  from T have a: "translate \<lparr>type = TextDelta, messageId = None, id' = Some ''t1'', delta = Some [],
           errorText = None, finishReason = None, usage = None, answer = None, data = None\<rparr> = []"
    by simp
  have fr: "\<forall>f \<in> set frames. is_frame f"
    unfolding frames_def by code_simp
  have tl: \<open>indexOf ''data: {"ty'' separator = None\<close>
    by code_simp
  have ev: "\<forall>f \<in> set frames.
      trim f = [] \<or> startsWith f ''data: [DONE]'' \<longrightarrow> backend_event JSON_parse f = None"
    using backend_event_discarded by blast
  have cc: \<open>concat chunks = wire frames @ ''data: {"ty''\<close>
    by (simp add: chunks_def frames_def wire_def separator_def)
  from T fr tl ev cc have "concat (emitted_text_deltas (output_parts JSON_parse chunks)) =
      concat (text_delta_fields (List.map_filter (backend_event JSON_parse) frames))"
    by blast
  also have "\<dots> = ''Hi there''"
    unfolding frames_def by code_simp
  finally have b: "concat (emitted_text_deltas (output_parts JSON_parse chunks)) = ''Hi there''" .
  from a b show ?thesis unfolding chunks_def by (intro conjI)
qed

section \<open>Properties of the call\<close>












section \<open>A complete stream\<close>

text \<open>
  The stream of seven frames of the specification's scenario, delivered in two chunks
  that split a frame, gives the six expected parts; the \<^verbatim>\<open>[DONE]\<close> frame gives none.
\<close>

lemma scenario_complete_stream:
  \<open>output_parts JSON_parse
     [''data: {"type":"start"}'' @ [LF, LF] @
      ''data: {"type":"text-start","id":"t1"}'' @ [LF, LF] @
      ''data: {"type":"text-delta","id":"t1","delta":"Hi"}'' @ [LF, LF] @
      ''data: {"type":"text-delta","id":"t1","del'',
      ''ta":" there"}'' @ [LF, LF] @
      ''data: {"type":"text-end","id":"t1"}'' @ [LF, LF] @
      ''data: {"type":"finish","finishReason":"stop"}'' @ [LF, LF] @
      ''data: [DONE]'' @ [LF, LF]] =
   [StreamStartPart [],
    TextStartPart ''t1'',
    TextDeltaPart ''t1'' ''Hi'',
    TextDeltaPart ''t1'' '' there'',
    TextEndPart ''t1'',
    FinishPart ''stop'' \<lparr>inputTokens = 0, outputTokens = 0, reasoningTokens = None, totalTokens = 0\<rparr>]\<close>
  by code_simp

end
